theory Spec2Isabelle
  imports Main
begin

section \<open>Strings as the handlers see them\<close>

text \<open>
  A JavaScript string is a sequence of code units. The model uses \<open>string\<close>, so a
  \<open>char\<close> stands for a code unit below 256; the handlers of \<^verbatim>\<open>src/index.js\<close> only
  ever inspect ASCII characters and white space.
\<close>

definition code_unit :: "char \<Rightarrow> nat" where
  "code_unit c = of_char c"

definition is_upper :: "char \<Rightarrow> bool" where
  "is_upper c = (65 \<le> code_unit c \<and> code_unit c \<le> 90)"

definition is_lower :: "char \<Rightarrow> bool" where
  "is_lower c = (97 \<le> code_unit c \<and> code_unit c \<le> 122)"

definition is_digit :: "char \<Rightarrow> bool" where
  "is_digit c = (48 \<le> code_unit c \<and> code_unit c \<le> 57)"

definition is_alnum :: "char \<Rightarrow> bool" where
  "is_alnum c = (is_upper c \<or> is_lower c \<or> is_digit c)"

definition to_lower :: "char \<Rightarrow> char" where
  "to_lower c = (if is_upper c then char_of (code_unit c + 32) else c)"

definition to_upper :: "char \<Rightarrow> char" where
  "to_upper c = (if is_lower c then char_of (code_unit c - 32) else c)"

text \<open>
  \<^verbatim>\<open>String.prototype.trim\<close> strips white space and line terminators from both ends:
  below 256 these are TAB, LF, VT, FF, CR, SPACE and NBSP.
\<close>

definition is_space :: "char \<Rightarrow> bool" where
  "is_space c = (code_unit c \<in> {9, 10, 11, 12, 13, 32, 160})"

definition trim :: "string \<Rightarrow> string" where
  "trim s = rev (dropWhile is_space (rev (dropWhile is_space s)))"

text \<open>
  A request field is absent (\<open>None\<close>) or a string. JavaScript treats \<^verbatim>\<open>undefined\<close> and
  the empty string as false; \<^verbatim>\<open>a || b\<close> is \<open>a\<close> when \<open>a\<close> is true and \<open>b\<close> otherwise.
\<close>

definition truthy :: "string option \<Rightarrow> bool" where
  "truthy v = (case v of None \<Rightarrow> False | Some s \<Rightarrow> s \<noteq> [])"

definition js_or :: "string option \<Rightarrow> string option \<Rightarrow> string option" where
  "js_or a b = (if truthy a then a else b)"

section \<open>Regular expressions\<close>

text \<open>
  The two regular expressions of the source, \<^verbatim>\<open>/^https?:\/\//i\<close> and
  \<^verbatim>\<open>/^[A-Za-z0-9]{6,8}$/\<close>, are built from literals, a character class of ranges,
  the assertions \<^verbatim>\<open>^\<close> and \<^verbatim>\<open>$\<close>, sequencing, \<^verbatim>\<open>?\<close> and a bounded repetition.
  \<open>rmatch ic r s i\<close> lists the positions at which a match of \<open>r\<close> that starts at
  position \<open>i\<close> of \<open>s\<close> can end, in backtracking order; \<open>ic\<close> is the \<^verbatim>\<open>i\<close> flag.
\<close>

datatype regex =
    Eps
  | Lit char
  | Cls "(char \<times> char) list"
  | Bol
  | Eol
  | Seq regex regex
  | Opt regex
  | Rep regex nat nat

definition canonicalize :: "bool \<Rightarrow> char \<Rightarrow> char" where
  "canonicalize ic c = (if ic then to_upper c else c)"

definition in_ranges :: "(char \<times> char) list \<Rightarrow> char \<Rightarrow> bool" where
  "in_ranges rs c = list_ex (\<lambda>(lo, hi). code_unit lo \<le> code_unit c \<and> code_unit c \<le> code_unit hi) rs"

definition in_class :: "bool \<Rightarrow> (char \<times> char) list \<Rightarrow> char \<Rightarrow> bool" where
  "in_class ic rs c =
     (if ic then in_ranges rs c \<or> in_ranges rs (to_lower c) \<or> in_ranges rs (to_upper c)
      else in_ranges rs c)"

fun lits :: "string \<Rightarrow> regex" where
  "lits [] = Eps"
| "lits (c # cs) = Seq (Lit c) (lits cs)"

fun rep_iter :: "(nat \<Rightarrow> nat list) \<Rightarrow> nat \<Rightarrow> nat \<Rightarrow> nat \<Rightarrow> nat list" where
  "rep_iter f lo 0 i = (if lo = 0 then [i] else [])"
| "rep_iter f lo (Suc hi) i =
     concat (map (rep_iter f (lo - 1) hi) (f i)) @ (if lo = 0 then [i] else [])"

fun rmatch :: "bool \<Rightarrow> regex \<Rightarrow> string \<Rightarrow> nat \<Rightarrow> nat list" where
  "rmatch ic Eps s i = [i]"
| "rmatch ic (Lit c) s i =
     (if i < length s \<and> canonicalize ic (s ! i) = canonicalize ic c then [Suc i] else [])"
| "rmatch ic (Cls rs) s i =
     (if i < length s \<and> in_class ic rs (s ! i) then [Suc i] else [])"
| "rmatch ic Bol s i = (if i = 0 then [i] else [])"
| "rmatch ic Eol s i = (if i = length s then [i] else [])"
| "rmatch ic (Seq a b) s i = concat (map (rmatch ic b s) (rmatch ic a s i))"
| "rmatch ic (Opt a) s i = rmatch ic a s i @ [i]"
| "rmatch ic (Rep a lo hi) s i = rep_iter (rmatch ic a s) lo hi i"

text \<open>\<^verbatim>\<open>RegExp.prototype.test\<close>: some start position has a match.\<close>

definition regex_test :: "bool \<Rightarrow> regex \<Rightarrow> string \<Rightarrow> bool" where
  "regex_test ic r s = list_ex (\<lambda>i. rmatch ic r s i \<noteq> []) [0 ..< Suc (length s)]"

section \<open>Helpers of \<^verbatim>\<open>src/index.js\<close>\<close>

text \<open>
  \<^verbatim>\<open>generateCode = customAlphabet(alphabet, 7)\<close> returns a random string of 7 characters
  of \<open>alphabet\<close>.
\<close>

definition alphabet :: string where
  "alphabet = ''ABCDEFGHIJKLMNOPQRSTUVWXYZabcdefghijklmnopqrstuvwxyz0123456789''"

definition is_generated :: "string \<Rightarrow> bool" where
  "is_generated g = (length g = 7 \<and> set g \<subseteq> set alphabet)"

text \<open>\<^verbatim>\<open>/^[A-Za-z0-9]{6,8}$/\<close>\<close>

definition code_regex :: regex where
  "code_regex =
     Seq Bol (Seq (Rep (Cls [(CHR ''A'', CHR ''Z''), (CHR ''a'', CHR ''z''), (CHR ''0'', CHR ''9'')]) 6 8) Eol)"

definition isValidCode :: "string \<Rightarrow> bool" where
  "isValidCode code = regex_test False code_regex code"

text \<open>\<^verbatim>\<open>/^https?:\/\//i\<close>\<close>

definition scheme_regex :: regex where
  "scheme_regex = Seq Bol (Seq (lits ''http'') (Seq (Opt (Lit CHR ''s'')) (lits ''://'')))"

text \<open>
  \<open>normalizeUrl\<close>: \<^verbatim>\<open>new URL(urlStr)\<close> belongs to the platform, so whether it throws is
  the parameter \<open>parses\<close>. \<open>None\<close> is the \<^verbatim>\<open>null\<close> result.
\<close>

definition normalizeUrl :: "(string \<Rightarrow> bool) \<Rightarrow> string option \<Rightarrow> string option" where
  "normalizeUrl parses raw =
     (if \<not> truthy raw then None
      else case raw of
        None \<Rightarrow> None
      | Some r \<Rightarrow>
          (let urlStr = trim r;
               urlStr = (if \<not> regex_test True scheme_regex urlStr then ''https://'' @ urlStr
                         else urlStr)
           in if parses urlStr then Some urlStr else None))"

section \<open>The links table\<close>

record link =
  row_id :: nat
  code :: string
  original_url :: string
  click_count :: int
  last_clicked_at :: "int option"
  created_at :: int

text \<open>The rows of table \<^verbatim>\<open>links\<close>, in insertion order.\<close>

type_synonym store = "link list"

text \<open>
  Modelled from the spec: the declaration of table \<^verbatim>\<open>links\<close> is not part of the
  source. The spec gives \<open>id\<close> as a unique identifier and \<open>code\<close> as unique across
  all links (the \<^verbatim>\<open>23505\<close> branch of the source relies on that constraint), and a
  created record has \<open>clickCount = 0\<close>, \<open>lastClickedAt = null\<close> and
  \<open>createdAt = now\<close>.
\<close>

definition wf_store :: "store \<Rightarrow> bool" where
  "wf_store s = (distinct (map row_id s) \<and> distinct (map code s))"

text \<open>
  What a request reads besides its own parameters and the table: the environment
  variable \<^verbatim>\<open>BASE_URL\<close>, the clock, the identifier the table gives to a new row, the
  value returned by \<^verbatim>\<open>generateCode()\<close>, the platform's URL parser, and which of the
  request's calls to the store (numbered from 0 in the order they are made) throw an
  error that is not a constraint violation.
\<close>

record env =
  base_url :: string
  now :: int
  next_id :: nat
  generated :: string
  url_parses :: "string \<Rightarrow> bool"
  fails :: "nat \<Rightarrow> bool"

datatype db_error = UniqueViolation | OtherDbError

text \<open>
  \<^verbatim>\<open>INSERT INTO links (code, original_url) VALUES ($1, $2) RETURNING ...\<close>
  (the remaining columns take the defaults described above).
\<close>

definition insert_link :: "env \<Rightarrow> string \<Rightarrow> string \<Rightarrow> store \<Rightarrow> db_error + (link \<times> store)" where
  "insert_link e c u s =
     (if fails e 0 then Inl OtherDbError
      else if c \<in> set (map code s) \<or> next_id e \<in> set (map row_id s) then Inl UniqueViolation
      else
        (let r = \<lparr> row_id = next_id e, code = c, original_url = u, click_count = 0,
                    last_clicked_at = None, created_at = now e \<rparr>
         in Inr (r, s @ [r])))"

section \<open>Pattern matching of the search query\<close>

text \<open>
  PostgreSQL \<^verbatim>\<open>LIKE\<close>: in the pattern \<^verbatim>\<open>%\<close> matches any sequence of characters,
  \<^verbatim>\<open>_\<close> any single character, and a backslash makes the next character literal. A
  pattern that ends in a lone backslash is an error (\<open>None\<close>).
\<close>

fun like_match :: "string \<Rightarrow> string \<Rightarrow> bool option" where
  "like_match [] t = Some (t = [])"
| "like_match (p # ps) t =
     (if p = CHR 0x5C then
        (case ps of
           [] \<Rightarrow> None
         | q # qs \<Rightarrow>
             (case t of
                [] \<Rightarrow> Some False
              | x # xs \<Rightarrow> if x = q then like_match qs xs else Some False))
      else if p = CHR ''%'' then
        (case like_match ps t of
           None \<Rightarrow> None
         | Some True \<Rightarrow> Some True
         | Some False \<Rightarrow>
             (case t of
                [] \<Rightarrow> Some False
              | x # xs \<Rightarrow> like_match (p # ps) xs))
      else if p = CHR ''_'' then
        (case t of
           [] \<Rightarrow> Some False
         | x # xs \<Rightarrow> like_match ps xs)
      else
        (case t of
           [] \<Rightarrow> Some False
         | x # xs \<Rightarrow> if x = p then like_match ps xs else Some False))"

text \<open>\<^verbatim>\<open>ILIKE\<close> compares without regard to case (ASCII letters here).\<close>

definition ilike :: "string \<Rightarrow> string \<Rightarrow> bool option" where
  "ilike txt pat = like_match (map to_lower pat) (map to_lower txt)"

text \<open>\<^verbatim>\<open>WHERE code ILIKE $1 OR original_url ILIKE $1\<close>\<close>

definition search_condition :: "string \<Rightarrow> link \<Rightarrow> bool option" where
  "search_condition pat r =
     (case ilike (code r) pat of
        None \<Rightarrow> None
      | Some a \<Rightarrow> (case ilike (original_url r) pat of None \<Rightarrow> None | Some b \<Rightarrow> Some (a \<or> b)))"

fun select_where :: "(link \<Rightarrow> bool option) \<Rightarrow> store \<Rightarrow> db_error + link list" where
  "select_where cond [] = Inr []"
| "select_where cond (r # rs) =
     (case cond r of
        None \<Rightarrow> Inl OtherDbError
      | Some b \<Rightarrow>
          (case select_where cond rs of
             Inl err \<Rightarrow> Inl err
           | Inr out \<Rightarrow> Inr (if b then r # out else out)))"

text \<open>\<^verbatim>\<open>ORDER BY created_at DESC\<close>\<close>

definition order_by_created_desc :: "link list \<Rightarrow> link list" where
  "order_by_created_desc rows = sort_key (\<lambda>r. - created_at r) rows"

section \<open>Requests and responses\<close>

record link_view =
  v_code :: string
  shortUrl :: string
  originalUrl :: string
  clickCount :: int
  lastClickedAt :: "int option"
  createdAt :: int

datatype body =
    LinkBody link_view
  | LinksBody "link_view list"
  | ErrorBody string
  | OkBody
  | HealthBody

datatype response =
    Json nat body
  | Send nat string
  | Redirect nat string
  | SendFile string

definition to_view :: "string \<Rightarrow> link \<Rightarrow> link_view" where
  "to_view base r =
     \<lparr> v_code = code r, shortUrl = base @ ''/'' @ code r, originalUrl = original_url r,
       clickCount = click_count r, lastClickedAt = last_clicked_at r,
       createdAt = created_at r \<rparr>"

record create_body =
  body_url :: "string option"
  body_targetUrl :: "string option"
  body_originalUrl :: "string option"
  body_code :: "string option"

text \<open>
  \<^verbatim>\<open>POST /api/links\<close>. \<open>try_insert\<close> is the inner \<^verbatim>\<open>try\<close> block around the
  \<^verbatim>\<open>INSERT\<close>. (The source writes the range in the second message with an en dash.)
\<close>

definition try_insert :: "env \<Rightarrow> string \<Rightarrow> string \<Rightarrow> store \<Rightarrow> response \<times> store" where
  "try_insert e c normalized s =
     (case insert_link e c normalized s of
        Inr (l, s') \<Rightarrow> (Json 201 (LinkBody (to_view (base_url e) l)), s')
      | Inl UniqueViolation \<Rightarrow> (Json 409 (ErrorBody ''Code already exists''), s)
      | Inl OtherDbError \<Rightarrow> (Json 500 (ErrorBody ''Internal server error''), s))"

definition long_url :: "create_body \<Rightarrow> string option" where
  "long_url b = js_or (js_or (body_url b) (body_targetUrl b)) (body_originalUrl b)"

definition post_links :: "env \<Rightarrow> create_body \<Rightarrow> store \<Rightarrow> response \<times> store" where
  "post_links e b s =
     (let longUrl = long_url b
      in case normalizeUrl (url_parses e) longUrl of
        None \<Rightarrow> (Json 400 (ErrorBody ''Invalid URL''), s)
      | Some normalized \<Rightarrow>
          (let c = (case body_code b of
                      None \<Rightarrow> generated e
                    | Some customCode \<Rightarrow>
                        if customCode \<noteq> [] then trim customCode else generated e)
           in if \<not> isValidCode c
              then (Json 400 (ErrorBody ''Code must be 6-8 characters, letters and numbers only''), s)
              else try_insert e c normalized s))"

text \<open>\<^verbatim>\<open>GET /api/links\<close>, with the query parameter \<^verbatim>\<open>search\<close>.\<close>

definition get_links :: "env \<Rightarrow> string option \<Rightarrow> store \<Rightarrow> response \<times> store" where
  "get_links e q s =
     (let search = trim (case js_or q (Some []) of None \<Rightarrow> [] | Some t \<Rightarrow> t);
          result =
            (if fails e 0 then Inl OtherDbError
             else if search \<noteq> []
               then select_where (search_condition (''%'' @ search @ ''%'')) s
               else Inr s)
      in case result of
        Inl err \<Rightarrow> (Json 500 (ErrorBody ''Internal server error''), s)
      | Inr rows \<Rightarrow>
          (Json 200 (LinksBody (map (to_view (base_url e)) (order_by_created_desc rows))), s))"

text \<open>\<^verbatim>\<open>GET /api/links/:code\<close>\<close>

definition get_link :: "env \<Rightarrow> string \<Rightarrow> store \<Rightarrow> response \<times> store" where
  "get_link e c s =
     (if fails e 0 then (Json 500 (ErrorBody ''Internal server error''), s)
      else case filter (\<lambda>r. code r = c) s of
        [] \<Rightarrow> (Json 404 (ErrorBody ''Not found''), s)
      | row # _ \<Rightarrow> (Json 200 (LinkBody (to_view (base_url e) row)), s))"

text \<open>\<^verbatim>\<open>DELETE /api/links/:code\<close>\<close>

definition delete_link :: "env \<Rightarrow> string \<Rightarrow> store \<Rightarrow> response \<times> store" where
  "delete_link e c s =
     (if fails e 0 then (Json 500 (ErrorBody ''Internal server error''), s)
      else
        (let rowCount = length (filter (\<lambda>r. code r = c) s);
             s' = filter (\<lambda>r. code r \<noteq> c) s
         in if rowCount = 0 then (Json 404 (ErrorBody ''Not found''), s')
            else (Json 200 OkBody, s')))"

text \<open>
  \<^verbatim>\<open>GET /:code\<close>. The store calls are, in order: \<^verbatim>\<open>pool.connect()\<close> (0),
  \<^verbatim>\<open>BEGIN\<close> (1), \<^verbatim>\<open>SELECT ... FOR UPDATE\<close> (2), then \<^verbatim>\<open>ROLLBACK\<close> (3) when no row
  was found, and \<^verbatim>\<open>UPDATE\<close> (3) and \<^verbatim>\<open>COMMIT\<close> (4) otherwise. \<open>tx\<close> is the table as
  the transaction sees it; it replaces the table at \<^verbatim>\<open>COMMIT\<close> and is dropped by the
  \<^verbatim>\<open>ROLLBACK\<close> of the \<^verbatim>\<open>catch\<close> block. \<open>clicked\<close> is the \<^verbatim>\<open>SET\<close> clause of the
  \<^verbatim>\<open>UPDATE\<close>, with \<^verbatim>\<open>NOW()\<close> the time of the request.
\<close>

definition clicked :: "int \<Rightarrow> link \<Rightarrow> link" where
  "clicked t r = r\<lparr> click_count := click_count r + 1, last_clicked_at := Some t \<rparr>"

definition redirect :: "env \<Rightarrow> string \<Rightarrow> store \<Rightarrow> response \<times> store" where
  "redirect e c s =
     (if c = ''favicon.ico'' then (Send 404 ''Not found'', s)
      else if fails e 0 then (Send 500 ''Internal server error'', s)
      else if fails e 1 then (Send 500 ''Internal server error'', s)
      else
        (let tx = s
         in if fails e 2 then (Send 500 ''Internal server error'', s)
            else case filter (\<lambda>r. code r = c) tx of
              [] \<Rightarrow>
                if fails e 3 then (Send 500 ''Internal server error'', s)
                else (Send 404 ''Not found'', s)
            | l # _ \<Rightarrow>
                if fails e 3 then (Send 500 ''Internal server error'', s)
                else
                  (let tx = map (\<lambda>r. if row_id r = row_id l then clicked (now e) r else r) tx
                   in if fails e 4 then (Send 500 ''Internal server error'', s)
                      else (Redirect 302 (original_url l), tx))))"

text \<open>The routes of the application.\<close>

datatype request =
    Healthz
  | Dashboard
  | StatsPage string
  | PostLinks create_body
  | GetLinks "string option"
  | GetLink string
  | DeleteLink string
  | GetCode string

fun handle :: "env \<Rightarrow> request \<Rightarrow> store \<Rightarrow> response \<times> store" where
  "handle e Healthz s = (Json 200 HealthBody, s)"
| "handle e Dashboard s = (SendFile ''index.html'', s)"
| "handle e (StatsPage c) s = (SendFile ''stats.html'', s)"
| "handle e (PostLinks b) s = post_links e b s"
| "handle e (GetLinks q) s = get_links e q s"
| "handle e (GetLink c) s = get_link e c s"
| "handle e (DeleteLink c) s = delete_link e c s"
| "handle e (GetCode c) s = redirect e c s"

text \<open>A sequence of requests, each with its environment, served one after the other.\<close>

fun run :: "(env \<times> request) list \<Rightarrow> store \<Rightarrow> store" where
  "run [] s = s"
| "run ((e, req) # rest) s = run rest (snd (handle e req s))"

section \<open>The contracts as the specification words them\<close>

text \<open>
  \<open>normalize\<close> (spec 4.3): trim; prepend \<^verbatim>\<open>https://\<close> unless the trimmed string begins,
  in any letter case, with \<^verbatim>\<open>http://\<close> or \<^verbatim>\<open>https://\<close>; return the result if it parses
  as a URL; empty input is invalid.
\<close>

definition ci_prefix :: "string \<Rightarrow> string \<Rightarrow> bool" where
  "ci_prefix p s = (map to_lower (take (length p) s) = map to_lower p)"

definition normalize_spec :: "(string \<Rightarrow> bool) \<Rightarrow> string option \<Rightarrow> string option" where
  "normalize_spec parses raw =
     (case raw of
        None \<Rightarrow> None
      | Some r \<Rightarrow>
          if r = [] then None
          else
            (let t = trim r;
                 u = (if ci_prefix ''http://'' t \<or> ci_prefix ''https://'' t then t
                      else ''https://'' @ t)
             in if parses u then Some u else None))"

text \<open>\<open>at_ci p s i\<close>: \<open>p\<close> occurs in \<open>s\<close> at position \<open>i\<close>, in any letter case.\<close>

definition at_ci :: "string \<Rightarrow> string \<Rightarrow> nat \<Rightarrow> bool" where
  "at_ci p s i = (map to_lower (take (length p) (drop i s)) = map to_lower p)"

text \<open>
  \<open>list\<close> (spec 4.4): the links whose code or URL contains the term as a substring, in
  any letter case, newest first; all links for an empty term. \<open>search_term\<close> is the
  term after the handler has trimmed it, and \<open>wildcard_free\<close> terms are those without
  a character that \<^verbatim>\<open>LIKE\<close> treats specially.
\<close>

fun has_substring :: "string \<Rightarrow> string \<Rightarrow> bool" where
  "has_substring t [] = (t = [])"
| "has_substring t (x # xs) = (take (length t) (x # xs) = t \<or> has_substring t xs)"

definition contains_ci :: "string \<Rightarrow> string \<Rightarrow> bool" where
  "contains_ci t x = has_substring (map to_lower t) (map to_lower x)"

definition wildcard_free :: "string \<Rightarrow> bool" where
  "wildcard_free t = list_all (\<lambda>c. c \<noteq> CHR ''%'' \<and> c \<noteq> CHR ''_'' \<and> c \<noteq> CHR 0x5C) t"

definition search_term :: "string option \<Rightarrow> string" where
  "search_term q = trim (case q of None \<Rightarrow> [] | Some t \<Rightarrow> t)"

definition list_spec :: "string \<Rightarrow> store \<Rightarrow> link list" where
  "list_spec t s =
     order_by_created_desc
       (if t = [] then s
        else filter (\<lambda>r. contains_ci t (code r) \<or> contains_ci t (original_url r)) s)"

section \<open>Example data\<close>

text \<open>
  A table with one link, a request body and an environment in which no store call
  fails; \<open>url_parses\<close> is the URL parser on the two URLs of the examples.
\<close>

definition example_env :: env where
  "example_env =
     \<lparr> base_url = ''http://localhost:3000'', now = 20, next_id = 2, generated = ''AAAAAAA'',
       url_parses = (\<lambda>u. u = ''https://a.com'' \<or> u = ''https://example.com''),
       fails = (\<lambda>i. False) \<rparr>"

definition example_link :: link where
  "example_link =
     \<lparr> row_id = 1, code = ''abc123'', original_url = ''https://a.com'', click_count = 0,
       last_clicked_at = None, created_at = 10 \<rparr>"

definition taken_link :: link where
  "taken_link =
     \<lparr> row_id = 1, code = ''AAAAAAA'', original_url = ''https://a.com'', click_count = 3,
       last_clicked_at = Some 15, created_at = 10 \<rparr>"

definition example_body :: create_body where
  "example_body =
     \<lparr> body_url = Some ''example.com'', body_targetUrl = None, body_originalUrl = None,
       body_code = None \<rparr>"

section \<open>The code validator\<close>

lemma in_ranges_alnum:
  "in_ranges [(CHR ''A'', CHR ''Z''), (CHR ''a'', CHR ''z''), (CHR ''0'', CHR ''9'')] c = is_alnum c"
  by (auto simp: in_ranges_def is_alnum_def is_upper_def is_lower_def is_digit_def code_unit_def)

text \<open>
  A bounded repetition of a one-character matcher, started inside the input, ends
  exactly after \<open>k\<close> accepted characters for each \<open>k\<close> within the bounds.
\<close>

lemma rep_iter_single:
  assumes f: "\<And>i. f i = (if i < n \<and> P i then [Suc i] else [])"
  shows "i \<le> n \<Longrightarrow> set (rep_iter f lo hi i) =
         {i + k | k. lo \<le> k \<and> k \<le> hi \<and> i + k \<le> n \<and> (\<forall>j<k. P (i + j))}"
proof (induction hi arbitrary: lo i)
  case 0
  then show ?case by auto
next
  case (Suc hi)
  note IH = Suc.IH and le = Suc.prems
  show ?case (is "?L = ?R")
  proof (intro set_eqI iffI)
    fix x assume "x \<in> ?L"
    then consider (here) "lo = 0" "x = i"
      | (step) "i < n" "P i" "x \<in> set (rep_iter f (lo - 1) hi (Suc i))"
      using f[of i] by (auto split: if_splits)
    then show "x \<in> ?R"
    proof cases
      case here
      then show ?thesis using le by auto
    next
      case step
      then obtain k where k: "x = Suc i + k" "lo - 1 \<le> k" "k \<le> hi" "Suc i + k \<le> n"
        "\<forall>j<k. P (Suc i + j)"
        using IH[of "Suc i" "lo - 1"] by auto
      have "\<forall>j<Suc k. P (i + j)"
      proof (intro allI impI)
        fix j assume "j < Suc k"
        then show "P (i + j)" using k(5) step(2) by (cases j) auto
      qed
      with k show ?thesis
        by (intro CollectI exI[of _ "Suc k"]) auto
    qed
  next
    fix x assume "x \<in> ?R"
    then obtain k where k: "x = i + k" "lo \<le> k" "k \<le> Suc hi" "i + k \<le> n" "\<forall>j<k. P (i + j)"
      by auto
    show "x \<in> ?L"
    proof (cases k)
      case 0
      with k show ?thesis by simp
    next
      case (Suc k')
      with k have "P (i + 0)" by blast
      moreover from k Suc have "i < n" by simp
      moreover have "x \<in> set (rep_iter f (lo - 1) hi (Suc i))"
        using IH[of "Suc i" "lo - 1"] k Suc \<open>i < n\<close>
        by auto
      ultimately show ?thesis using f[of i] by simp
    qed
  qed
qed

lemma concat_map_ne: "concat (map f xs) \<noteq> [] \<longleftrightarrow> (\<exists>x\<in>set xs. f x \<noteq> [])"
  by (induction xs) auto

lemma code_regex_at:
  "rmatch False code_regex s i \<noteq> [] \<longleftrightarrow>
     i = 0 \<and> 6 \<le> length s \<and> length s \<le> 8 \<and> (\<forall>c\<in>set s. is_alnum c)"
proof -
  let ?rs = "[(CHR ''A'', CHR ''Z''), (CHR ''a'', CHR ''z''), (CHR ''0'', CHR ''9'')]"
  let ?f = "rmatch False (Cls ?rs) s"
  have f: "\<And>i. ?f i = (if i < length s \<and> is_alnum (s ! i) then [Suc i] else [])"
    by (simp add: in_class_def in_ranges_alnum)
  have ends: "set (rep_iter ?f 6 8 0) =
      {0 + k | k. 6 \<le> k \<and> k \<le> 8 \<and> 0 + k \<le> length s \<and> (\<forall>j<k. is_alnum (s ! (0 + j)))}"
    by (rule rep_iter_single[OF f]) simp
  have "rmatch False code_regex s i \<noteq> [] \<longleftrightarrow> i = 0 \<and> length s \<in> set (rep_iter ?f 6 8 0)"
    by (auto simp: code_regex_def concat_map_ne)
  also have "\<dots> \<longleftrightarrow> i = 0 \<and> 6 \<le> length s \<and> length s \<le> 8 \<and> (\<forall>j<length s. is_alnum (s ! j))"
    unfolding ends by auto
  also have "\<dots> \<longleftrightarrow> i = 0 \<and> 6 \<le> length s \<and> length s \<le> 8 \<and> (\<forall>c\<in>set s. is_alnum c)"
    by (simp add: all_set_conv_all_nth)
  finally show ?thesis .
qed

lemma isValidCode_chars:
  "isValidCode s \<longleftrightarrow> 6 \<le> length s \<and> length s \<le> 8 \<and> (\<forall>c\<in>set s. is_alnum c)"
  unfolding isValidCode_def regex_test_def list_ex_iff code_regex_at by auto

text \<open>
  C7. \<open>isValidCode s\<close> holds if and only if \<open>s\<close> has between 6 and 8 characters and
  each of them is an ASCII letter or digit; so it is false for every string whose
  length is outside that range and for every string with another character.
\<close>

theorem isValidCode_iff:
  "(isValidCode s \<longleftrightarrow> 6 \<le> length s \<and> length s \<le> 8 \<and> (\<forall>c\<in>set s. is_alnum c))
   \<and> (length s < 6 \<or> 8 < length s \<or> (\<exists>c\<in>set s. \<not> is_alnum c) \<longrightarrow> \<not> isValidCode s)"
  using isValidCode_chars[of s] by auto

theorem isValidCode_iff_witness:
  "isValidCode ''abc123'' \<and> isValidCode ''Zz09AaBb'' \<and> \<not> isValidCode ''abc12''
   \<and> \<not> isValidCode ''abcdefghi'' \<and> \<not> isValidCode ''abc_123''"
  using isValidCode_iff[of "''abc123''"] isValidCode_iff[of "''Zz09AaBb''"]
    isValidCode_iff[of "''abc12''"] isValidCode_iff[of "''abcdefghi''"]
    isValidCode_iff[of "''abc_123''"]
  by (simp add: is_alnum_def is_upper_def is_lower_def is_digit_def code_unit_def)

section \<open>The redirect route\<close>

text \<open>
  C9. A request for \<^verbatim>\<open>/favicon.ico\<close> is answered with 404 and the table is left as it
  was, whatever the table holds and even when every call to the store would fail: the
  handler returns before its first call to the store.
\<close>

theorem favicon_rejected:
  "redirect e ''favicon.ico'' s = (Send 404 ''Not found'', s)"
  by (simp add: redirect_def)

lemma filter_code_unique:
  "distinct (map code s) \<Longrightarrow> l \<in> set s \<Longrightarrow> filter (\<lambda>r. code r = code l) s = [l]"
proof (induction s)
  case Nil
  then show ?case by simp
next
  case (Cons a s)
  show ?case
  proof (cases "a = l")
    case True
    from Cons.prems(1) have "\<forall>r\<in>set s. code r \<noteq> code l"
      using True by (auto simp: image_iff)
    then have "filter (\<lambda>r. code r = code l) s = []"
      by (simp add: filter_empty_conv)
    with True show ?thesis by simp
  next
    case False
    with Cons.prems have in_s: "l \<in> set s" and "code a \<noteq> code l"
      by (auto simp: image_iff)
    with Cons.IH Cons.prems(1) show ?thesis by simp
  qed
qed

lemma same_row_iff:
  assumes "wf_store s" "l \<in> set s" "r \<in> set s"
  shows "row_id r = row_id l \<longleftrightarrow> code r = code l"
proof -
  from assms have "row_id r = row_id l \<Longrightarrow> r = l"
    by (auto simp: wf_store_def distinct_map dest: inj_onD)
  moreover from assms have "code r = code l \<Longrightarrow> r = l"
    by (auto simp: wf_store_def distinct_map dest: inj_onD)
  ultimately show ?thesis by auto
qed

lemma redirect_found:
  assumes wf: "wf_store s" and l: "l \<in> set s" and c: "c \<noteq> ''favicon.ico''"
    and ok: "\<forall>i. \<not> fails e i" and cl: "code l = c"
  shows "redirect e c s =
     (Redirect 302 (original_url l),
      map (\<lambda>r. if code r = c then clicked (now e) r else r) s)"
proof -
  have sel: "filter (\<lambda>r. code r = c) s = [l]"
    using filter_code_unique[of s l] wf l cl by (simp add: wf_store_def)
  have upd: "map (\<lambda>r. if row_id r = row_id l then clicked (now e) r else r) s =
             map (\<lambda>r. if code r = c then clicked (now e) r else r) s"
    by (rule map_cong[OF refl]) (simp add: same_row_iff[OF wf l] cl)
  show ?thesis
    using c ok by (simp add: redirect_def sel upd)
qed

lemma wf_store_map_clicked:
  "wf_store s \<Longrightarrow> wf_store (map (\<lambda>r. if P r then clicked t r else r) s)"
proof -
  have "map row_id (map (\<lambda>r. if P r then clicked t r else r) s) = map row_id s"
    by (simp add: clicked_def comp_def if_distrib cong: if_cong)
  moreover have "map code (map (\<lambda>r. if P r then clicked t r else r) s) = map code s"
    by (simp add: clicked_def comp_def if_distrib cong: if_cong)
  ultimately show "wf_store s \<Longrightarrow> ?thesis" unfolding wf_store_def by presburger
qed

text \<open>
  C1. When the table (with unique identifiers and codes) holds a link \<open>l\<close> with code
  \<open>c\<close>, \<open>c\<close> is not \<^verbatim>\<open>favicon.ico\<close> and no store call fails, the handler of
  \<^verbatim>\<open>GET /:code\<close> answers with a 302 redirect to the original URL of \<open>l\<close>; afterwards
  the link with code \<open>c\<close> is \<open>l\<close> with its click count increased by one and its
  last-click time set to the time of the request, and every other row is as before. The
  target and the increment come from the same transaction: the row selected is the row
  updated.
\<close>

theorem redirect_records_click:
  assumes "wf_store s" and "l \<in> set s" and "code l = c" and "c \<noteq> ''favicon.ico''"
    and "\<forall>i. \<not> fails e i"
  shows "fst (redirect e c s) = Redirect 302 (original_url l)
     \<and> snd (redirect e c s) = map (\<lambda>r. if code r = c then clicked (now e) r else r) s
     \<and> filter (\<lambda>r. code r = c) (snd (redirect e c s)) = [clicked (now e) l]
     \<and> click_count (clicked (now e) l) = click_count l + 1
     \<and> last_clicked_at (clicked (now e) l) = Some (now e)
     \<and> original_url (clicked (now e) l) = original_url l
     \<and> wf_store (snd (redirect e c s))"
proof -
  let ?s' = "map (\<lambda>r. if code r = c then clicked (now e) r else r) s"
  have r: "redirect e c s = (Redirect 302 (original_url l), ?s')"
    using assms by (intro redirect_found) auto
  have wf': "wf_store ?s'" using assms(1) by (rule wf_store_map_clicked)
  have in': "clicked (now e) l \<in> set ?s'" using assms(2,3) by force
  have "code (clicked (now e) l) = c" using assms(3) by (simp add: clicked_def)
  then have "filter (\<lambda>r. code r = c) ?s' = [clicked (now e) l]"
    using filter_code_unique[of ?s' "clicked (now e) l"] wf' in' by (simp add: wf_store_def)
  with r wf' show ?thesis by (simp add: clicked_def)
qed

theorem redirect_records_click_witness:
  "wf_store [example_link]
   \<and> fst (redirect example_env ''abc123'' [example_link]) = Redirect 302 ''https://a.com''
   \<and> snd (redirect example_env ''abc123'' [example_link]) =
       [example_link\<lparr> click_count := 1, last_clicked_at := Some 20 \<rparr>]"
  using redirect_records_click[of "[example_link]" example_link "''abc123''" example_env]
  by (simp add: wf_store_def example_link_def example_env_def clicked_def)

text \<open>
  C2. When no link has code \<open>c\<close>, the handler of \<^verbatim>\<open>GET /:code\<close> leaves the table
  exactly as it was, and answers 404 when no store call fails (and otherwise 500).
\<close>

theorem redirect_unknown_code:
  assumes "c \<notin> code ` set s"
  shows "snd (redirect e c s) = s
     \<and> ((\<forall>i. \<not> fails e i) \<longrightarrow> fst (redirect e c s) = Send 404 ''Not found'')
     \<and> (fst (redirect e c s) = Send 404 ''Not found''
          \<or> fst (redirect e c s) = Send 500 ''Internal server error'')"
proof -
  from assms have "filter (\<lambda>r. code r = c) s = []"
    by (auto simp: filter_empty_conv)
  then show ?thesis by (simp add: redirect_def)
qed

theorem redirect_unknown_code_witness:
  "''nosuchcode'' \<notin> code ` set [example_link]
   \<and> redirect example_env ''nosuchcode'' [example_link] = (Send 404 ''Not found'', [example_link])"
  using redirect_unknown_code[of "''nosuchcode''" "[example_link]" example_env]
  by (simp add: example_link_def example_env_def prod_eq_iff)

section \<open>Creating links\<close>

lemma alnum_not_space: "is_alnum c \<Longrightarrow> \<not> is_space c"
  by (auto simp: is_alnum_def is_upper_def is_lower_def is_digit_def is_space_def)

lemma trim_padded:
  assumes a: "\<forall>x\<in>set a. is_space x" and b: "\<forall>x\<in>set b. is_space x"
    and c: "\<forall>x\<in>set c. \<not> is_space x"
  shows "trim (a @ c @ b) = c"
proof (cases "c = []")
  case True
  have d: "dropWhile is_space (a @ b) = []" using a b by auto
  show ?thesis unfolding trim_def True append_Nil d by simp
next
  case False
  then have hd: "\<not> is_space (hd c)" and lst: "\<not> is_space (last c)" using c by auto
  have "dropWhile is_space (a @ c @ b) = dropWhile is_space (c @ b)"
    using a by (intro dropWhile_append2) auto
  also have "\<dots> = c @ b" using False hd by (cases c) auto
  finally have 1: "dropWhile is_space (a @ c @ b) = c @ b" .
  have "dropWhile is_space (rev b @ rev c) = dropWhile is_space (rev c)"
    using b by (intro dropWhile_append2) auto
  also have "\<dots> = rev c" using False lst by (cases c rule: rev_cases) auto
  finally show ?thesis by (simp add: trim_def 1)
qed

lemma valid_code_trim:
  assumes "isValidCode c"
  shows "c \<noteq> []" and "trim c = c"
proof -
  from assms show "c \<noteq> []" by (auto simp: isValidCode_chars)
  from assms have "\<forall>x\<in>set c. \<not> is_space x"
    by (auto simp: isValidCode_chars alnum_not_space)
  then show "trim c = c" using trim_padded[of "[]" "[]" c] by simp
qed

lemma try_insert_duplicate:
  "c \<in> code ` set s \<Longrightarrow>
     try_insert e c u s =
       (if fails e 0 then (Json 500 (ErrorBody ''Internal server error''), s)
        else (Json 409 (ErrorBody ''Code already exists''), s))"
  by (simp add: try_insert_def insert_link_def)

lemma try_insert_fresh:
  "c \<notin> code ` set s \<Longrightarrow> next_id e \<notin> row_id ` set s \<Longrightarrow> \<not> fails e 0 \<Longrightarrow>
     try_insert e c u s =
       (let r = \<lparr> row_id = next_id e, code = c, original_url = u, click_count = 0,
                   last_clicked_at = None, created_at = now e \<rparr>
        in (Json 201 (LinkBody (to_view (base_url e) r)), s @ [r]))"
  by (simp add: try_insert_def insert_link_def Let_def)

lemma alphabet_alnum: "\<forall>c\<in>set alphabet. is_alnum c"
  by (simp add: alphabet_def is_alnum_def is_upper_def is_lower_def is_digit_def code_unit_def)

lemma generated_code_valid: "is_generated g \<Longrightarrow> isValidCode g"
  using alphabet_alnum by (auto simp: isValidCode_chars is_generated_def)

text \<open>
  C4. When the table already holds a link with code \<open>c\<close> (a valid code) and a create
  request supplies \<open>c\<close>, the table is left exactly as it was: the existing record is
  not modified and no record is inserted. The \<^verbatim>\<open>INSERT\<close> block answers 409 unless the
  store call fails, and so does the whole handler once the URL of the request has
  passed validation.
\<close>

theorem create_existing_code:
  assumes "c \<in> code ` set s" and "isValidCode c" and "body_code b = Some c"
  shows "snd (post_links e b s) = s
     \<and> snd (try_insert e c u s) = s
     \<and> (\<not> fails e 0 \<longrightarrow> fst (try_insert e c u s) = Json 409 (ErrorBody ''Code already exists''))
     \<and> (normalizeUrl (url_parses e) (long_url b) \<noteq> None \<and> \<not> fails e 0 \<longrightarrow>
          fst (post_links e b s) = Json 409 (ErrorBody ''Code already exists''))"
  using assms valid_code_trim[OF assms(2)]
  by (auto simp: post_links_def long_url_def try_insert_duplicate Let_def split: option.splits)

theorem create_existing_code_witness:
  "''abc123'' \<in> code ` set [example_link] \<and> isValidCode ''abc123''
   \<and> post_links example_env (example_body\<lparr> body_code := Some ''abc123'' \<rparr>) [example_link]
       = (Json 409 (ErrorBody ''Code already exists''), [example_link])"
proof -
  have v: "isValidCode ''abc123''" by code_simp
  have n: "normalizeUrl (url_parses example_env)
             (long_url (example_body\<lparr> body_code := Some ''abc123'' \<rparr>)) \<noteq> None"
    by code_simp
  show ?thesis
    using create_existing_code[of "''abc123''" "[example_link]"
        "example_body\<lparr> body_code := Some ''abc123'' \<rparr>" example_env, OF _ v] n
    by (simp add: example_link_def example_env_def prod_eq_iff v)
qed

text \<open>
  C3 (as the code has it). When no custom code is supplied, the URL is valid and the
  generated code is already taken, the handler makes its single \<^verbatim>\<open>INSERT\<close> and answers
  with the duplicate-code error 409, leaving the table as it was: a collision of a
  generated code is not retried.
\<close>

theorem create_generated_collision:
  assumes "\<not> truthy (body_code b)" and "normalizeUrl (url_parses e) (long_url b) = Some u"
    and "is_generated (generated e)"
    and "generated e \<in> code ` set s" and "\<not> fails e 0"
  shows "post_links e b s = (Json 409 (ErrorBody ''Code already exists''), s)"
  using assms generated_code_valid[OF assms(3)]
  by (auto simp: post_links_def long_url_def try_insert_duplicate Let_def truthy_def
      split: option.splits)

text \<open>
  C3 does not hold as stated: with the generated code \<^verbatim>\<open>AAAAAAA\<close> already in the table,
  a create request without a custom code is answered with 409.
\<close>

theorem generated_collision_409:
  "body_code example_body = None \<and> generated example_env = code taken_link
   \<and> post_links example_env example_body [taken_link]
       = (Json 409 (ErrorBody ''Code already exists''), [taken_link])"
  by code_simp

theorem create_generated_collision_witness:
  "\<not> truthy (body_code example_body) \<and> is_generated (generated example_env)
   \<and> post_links example_env example_body [taken_link]
       = (Json 409 (ErrorBody ''Code already exists''), [taken_link])"
proof -
  have n: "normalizeUrl (url_parses example_env) (long_url example_body) = Some ''https://example.com''"
    by code_simp
  have a: "is_generated (generated example_env)"
    by (simp add: example_env_def alphabet_def is_generated_def)
  show ?thesis
    using create_generated_collision[of example_body example_env "''https://example.com''" "[taken_link]", OF _ n a] a
    by (simp add: example_env_def example_body_def taken_link_def truthy_def)
qed

text \<open>
  C10. A custom code is trimmed before it is validated and stored: when the supplied
  code is a valid code \<open>c\<close> with white space before and after it, the URL is valid,
  \<open>c\<close> is not yet taken and the store call succeeds, the handler answers 201 and the
  record it appends to the table has code \<open>c\<close>, not the padded string.
\<close>

theorem create_trims_custom_code:
  assumes "isValidCode c" and "\<forall>x\<in>set a. is_space x" and "\<forall>x\<in>set z. is_space x"
    and "body_code b = Some (a @ c @ z)"
    and "normalizeUrl (url_parses e) (long_url b) = Some u"
    and "c \<notin> code ` set s" and "next_id e \<notin> row_id ` set s" and "\<not> fails e 0"
  shows "post_links e b s =
     (Json 201 (LinkBody (to_view (base_url e)
        \<lparr> row_id = next_id e, code = c, original_url = u, click_count = 0,
          last_clicked_at = None, created_at = now e \<rparr>)),
      s @ [\<lparr> row_id = next_id e, code = c, original_url = u, click_count = 0,
             last_clicked_at = None, created_at = now e \<rparr>])"
proof -
  have ns: "\<forall>x\<in>set c. \<not> is_space x"
    using assms(1) by (auto simp: isValidCode_chars alnum_not_space)
  have t: "trim (a @ c @ z) = c" using assms(2,3) ns by (rule trim_padded)
  have ne: "a @ c @ z \<noteq> []" using valid_code_trim(1)[OF assms(1)] by simp
  show ?thesis
    using assms(1,4,5) t ne try_insert_fresh[OF assms(6,7,8), of u]
    by (simp add: post_links_def long_url_def Let_def)
qed

theorem create_trims_custom_code_witness:
  "isValidCode ''xyz789''
   \<and> fst (post_links example_env (example_body\<lparr> body_code := Some ''  xyz789 '' \<rparr>) [example_link])
       = Json 201 (LinkBody \<lparr> v_code = ''xyz789'', shortUrl = ''http://localhost:3000/xyz789'',
            originalUrl = ''https://example.com'', clickCount = 0, lastClickedAt = None,
            createdAt = 20 \<rparr>)
   \<and> map code (snd (post_links example_env (example_body\<lparr> body_code := Some ''  xyz789 '' \<rparr>)
        [example_link])) = [''abc123'', ''xyz789'']"
proof -
  have v: "isValidCode ''xyz789''" by code_simp
  have n: "normalizeUrl (url_parses example_env)
      (long_url (example_body\<lparr> body_code := Some ''  xyz789 '' \<rparr>)) = Some ''https://example.com''"
    by code_simp
  have sp: "\<forall>x\<in>set ''  ''. is_space x" "\<forall>x\<in>set '' ''. is_space x"
    by (simp_all add: is_space_def code_unit_def)
  show ?thesis
    using create_trims_custom_code[of "''xyz789''" "''  ''" "'' ''"
        "example_body\<lparr> body_code := Some ''  xyz789 '' \<rparr>" example_env "''https://example.com''"
        "[example_link]", OF v sp _ n]
    by (simp add: example_env_def example_link_def to_view_def v)
qed

section \<open>Click counts across all requests\<close>

lemma post_links_store:
  "snd (post_links e b s) = s
   \<or> (\<exists>c u. c \<notin> code ` set s \<and> next_id e \<notin> row_id ` set s
        \<and> snd (post_links e b s) =
            s @ [\<lparr> row_id = next_id e, code = c, original_url = u, click_count = 0,
                   last_clicked_at = None, created_at = now e \<rparr>])"
  by (auto simp: post_links_def try_insert_def insert_link_def Let_def
      split: option.splits sum.splits db_error.splits if_splits)

lemma get_links_store: "snd (get_links e q s) = s"
  by (simp add: get_links_def Let_def split: sum.splits)

lemma get_link_store: "snd (get_link e c s) = s"
  by (simp add: get_link_def split: list.splits)

lemma delete_link_store:
  "snd (delete_link e c s) = s \<or> snd (delete_link e c s) = filter (\<lambda>r. code r \<noteq> c) s"
  by (simp add: delete_link_def Let_def)

lemma redirect_store:
  "snd (redirect e c s) = s \<and> (\<forall>u. fst (redirect e c s) \<noteq> Redirect 302 u)
   \<or> (\<exists>l rest. filter (\<lambda>r. code r = c) s = l # rest
        \<and> fst (redirect e c s) = Redirect 302 (original_url l)
        \<and> snd (redirect e c s) =
            map (\<lambda>r. if row_id r = row_id l then clicked (now e) r else r) s)"
  by (simp add: redirect_def Let_def split: list.splits)

lemma filter_hd_props:
  "filter P s = l # rest \<Longrightarrow> l \<in> set s \<and> P l"
  by (metis filter_eq_ConsD in_set_conv_decomp)

lemma handle_wf: "wf_store s \<Longrightarrow> wf_store (snd (handle e req s))"
proof (cases req)
  case (PostLinks b)
  assume "wf_store s"
  with post_links_store[of e b s] PostLinks show ?thesis
    by (auto simp: wf_store_def)
next
  case (DeleteLink c)
  assume "wf_store s"
  with delete_link_store[of e c s] DeleteLink show ?thesis
    by (auto simp: wf_store_def distinct_map_filter)
next
  case (GetCode c)
  assume "wf_store s"
  with redirect_store[of e c s] GetCode show ?thesis
    by (auto simp: wf_store_map_clicked)
qed (simp_all add: get_links_store get_link_store)

lemma handle_nonneg:
  assumes "\<forall>r\<in>set s. 0 \<le> click_count r"
  shows "\<forall>r\<in>set (snd (handle e req s)). 0 \<le> click_count r"
proof (cases req)
  case (PostLinks b)
  with post_links_store[of e b s] assms show ?thesis by auto
next
  case (DeleteLink c)
  with delete_link_store[of e c s] assms show ?thesis by auto
next
  case (GetCode c)
  with redirect_store[of e c s] assms show ?thesis
    by (auto simp: clicked_def)
qed (simp_all add: get_links_store get_link_store assms)

lemma run_invariants:
  "wf_store s \<Longrightarrow> \<forall>r\<in>set s. 0 \<le> click_count r \<Longrightarrow>
     wf_store (run ops s) \<and> (\<forall>r\<in>set (run ops s). 0 \<le> click_count r)"
proof (induction ops arbitrary: s)
  case Nil
  then show ?case by simp
next
  case (Cons x ops)
  obtain e req where x: "x = (e, req)" by (cases x)
  show ?case
    unfolding x run.simps
    by (rule Cons.IH) (use Cons.prems handle_wf handle_nonneg in blast)+
qed

lemma handle_step:
  assumes wf: "wf_store s" and r': "r' \<in> set (snd (handle e req s))"
  shows "(\<exists>r\<in>set s. row_id r = row_id r' \<and> code r = code r'
            \<and> (click_count r' = click_count r
                \<or> click_count r' = click_count r + 1 \<and> req = GetCode (code r)
                   \<and> fst (handle e req s) = Redirect 302 (original_url r)))
       \<or> (row_id r' \<notin> row_id ` set s \<and> click_count r' = 0 \<and> (\<exists>b. req = PostLinks b))"
proof (cases req)
  case (PostLinks b)
  with post_links_store[of e b s] r' show ?thesis by auto
next
  case (DeleteLink c)
  with delete_link_store[of e c s] r' show ?thesis by auto
next
  case (GetCode c)
  from redirect_store[of e c s]
  show ?thesis
  proof (elim disjE conjE exE)
    assume "snd (redirect e c s) = s"
    with r' GetCode show ?thesis by auto
  next
    fix l rest
    assume sel: "filter (\<lambda>r. code r = c) s = l # rest"
      and resp: "fst (redirect e c s) = Redirect 302 (original_url l)"
      and upd: "snd (redirect e c s) =
                  map (\<lambda>r. if row_id r = row_id l then clicked (now e) r else r) s"
    from sel have l: "l \<in> set s" "code l = c"
      using filter_hd_props[OF sel] by auto
    from r' GetCode upd obtain r where r: "r \<in> set s"
      "r' = (if row_id r = row_id l then clicked (now e) r else r)" by auto
    show ?thesis
    proof (cases "row_id r = row_id l")
      case True
      with same_row_iff[OF wf l(1) r(1)] wf l r have "r = l"
        by (auto simp: wf_store_def distinct_map dest: inj_onD)
      with True r l resp GetCode show ?thesis
        by (intro disjI1 bexI[of _ r]) (auto simp: clicked_def)
    next
      case False
      with r show ?thesis by auto
    qed
  qed
qed (use r' in \<open>auto simp: get_links_store get_link_store\<close>)

lemma redirect_success:
  assumes wf: "wf_store s" and resp: "fst (redirect e c s) = Redirect 302 u"
  shows "\<exists>r\<in>set s. code r = c \<and> u = original_url r
           \<and> clicked (now e) r \<in> set (snd (redirect e c s))
           \<and> click_count (clicked (now e) r) = click_count r + 1"
proof -
  from redirect_store[of e c s] resp obtain l rest where
    sel: "filter (\<lambda>r. code r = c) s = l # rest" and
    u: "u = original_url l" and
    upd: "snd (redirect e c s) = map (\<lambda>r. if row_id r = row_id l then clicked (now e) r else r) s"
    by auto
  from sel have l: "l \<in> set s" "code l = c"
    using filter_hd_props[OF sel] by auto
  have "clicked (now e) l \<in> set (snd (redirect e c s))"
    unfolding upd using l(1) by force
  with l u show ?thesis by (auto simp: clicked_def)
qed

text \<open>
  C8. In every table reached from the empty table by any sequence of requests the click
  counts are non-negative. In one request on a table with unique identifiers and codes,
  a row that is new has click count 0 and comes from a create request; a row that was
  there before keeps its click count, unless the request is a redirect for its code
  that is answered with the 302 to its URL, in which case the count has grown by
  exactly one. Every redirect answered with 302 has increased the count of the link it
  redirects to by one.
\<close>

theorem click_count_discipline:
  "(\<forall>r\<in>set (run ops []). 0 \<le> click_count r)
   \<and> wf_store (run ops [])
   \<and> (wf_store s \<longrightarrow>
        (\<forall>r'\<in>set (snd (handle e req s)).
           (\<exists>r\<in>set s. row_id r = row_id r' \<and> code r = code r'
              \<and> (click_count r' = click_count r
                  \<or> click_count r' = click_count r + 1 \<and> req = GetCode (code r)
                     \<and> fst (handle e req s) = Redirect 302 (original_url r)))
           \<or> (row_id r' \<notin> row_id ` set s \<and> click_count r' = 0 \<and> (\<exists>b. req = PostLinks b))))
   \<and> (wf_store s \<and> fst (handle e (GetCode c) s) = Redirect 302 u \<longrightarrow>
        (\<exists>r\<in>set s. code r = c \<and> u = original_url r
           \<and> clicked (now e) r \<in> set (snd (handle e (GetCode c) s))
           \<and> click_count (clicked (now e) r) = click_count r + 1))"
proof -
  have "wf_store []" by (simp add: wf_store_def)
  then have 1: "wf_store (run ops []) \<and> (\<forall>r\<in>set (run ops []). 0 \<le> click_count r)"
    by (rule run_invariants) simp
  then have a: "\<forall>r\<in>set (run ops []). 0 \<le> click_count r" and b: "wf_store (run ops [])"
    by (rule conjunct2, rule conjunct1)
  have 2: "wf_store s \<longrightarrow>
      (\<forall>r'\<in>set (snd (handle e req s)).
         (\<exists>r\<in>set s. row_id r = row_id r' \<and> code r = code r'
              \<and> (click_count r' = click_count r
                  \<or> click_count r' = click_count r + 1 \<and> req = GetCode (code r)
                     \<and> fst (handle e req s) = Redirect 302 (original_url r)))
           \<or> (row_id r' \<notin> row_id ` set s \<and> click_count r' = 0 \<and> (\<exists>b. req = PostLinks b)))"
    by (intro impI ballI, rule handle_step)
  have 3: "wf_store s \<and> fst (handle e (GetCode c) s) = Redirect 302 u \<longrightarrow>
        (\<exists>r\<in>set s. code r = c \<and> u = original_url r
           \<and> clicked (now e) r \<in> set (snd (handle e (GetCode c) s))
           \<and> click_count (clicked (now e) r) = click_count r + 1)"
    using redirect_success[of s e c u] by simp
  show ?thesis by (rule conjI[OF a conjI[OF b conjI[OF 2 3]]])
qed

theorem click_count_discipline_witness:
  "wf_store [example_link]
   \<and> fst (handle example_env (GetCode ''abc123'') [example_link]) = Redirect 302 ''https://a.com''
   \<and> map click_count (snd (handle example_env (GetCode ''abc123'') [example_link])) = [1]
   \<and> map click_count (run [(example_env, PostLinks example_body)] []) = [0]
   \<and> map click_count
        (run [(example_env, PostLinks example_body), (example_env, GetCode ''AAAAAAA'')] []) = [1]"
proof -
  have wf: "wf_store [example_link]" by code_simp
  have r: "handle example_env (GetCode ''abc123'') [example_link] =
             (Redirect 302 ''https://a.com'', [clicked 20 example_link])"
    by code_simp
  have p: "map click_count (run [(example_env, PostLinks example_body)] []) = [0]"
    by code_simp
  have q: "map click_count
        (run [(example_env, PostLinks example_body), (example_env, GetCode ''AAAAAAA'')] []) = [1]"
    by code_simp
  show ?thesis
    using click_count_discipline[of "[(example_env, PostLinks example_body)]" "[example_link]"
        example_env "GetCode ''abc123''" "''abc123''" "''https://a.com''"] wf r p q
    by (simp add: clicked_def example_link_def)
qed

section \<open>The URL normaliser\<close>

lemma code_unit_char_of: "n < 256 \<Longrightarrow> code_unit (char_of n) = n"
  by (simp add: code_unit_def)

lemma code_unit_inj: "code_unit a = code_unit b \<longleftrightarrow> a = b"
  by (simp add: code_unit_def)

lemma code_unit_less: "code_unit c < 256"
  by (simp add: code_unit_def)

lemma code_unit_to_upper:
  "code_unit (to_upper c) = (if is_lower c then code_unit c - 32 else code_unit c)"
  using code_unit_less[of c] by (simp add: to_upper_def is_lower_def code_unit_char_of)

lemma code_unit_to_lower:
  "code_unit (to_lower c) = (if is_upper c then code_unit c + 32 else code_unit c)"
  using code_unit_less[of c] by (simp add: to_lower_def is_upper_def code_unit_char_of)

lemma fold_case_eq: "to_upper a = to_upper b \<longleftrightarrow> to_lower a = to_lower b"
proof -
  have "to_upper a = to_upper b \<longleftrightarrow> code_unit (to_upper a) = code_unit (to_upper b)"
    by (simp add: code_unit_inj)
  also have "\<dots> \<longleftrightarrow> code_unit (to_lower a) = code_unit (to_lower b)"
    unfolding code_unit_to_upper code_unit_to_lower is_lower_def is_upper_def by auto
  also have "\<dots> \<longleftrightarrow> to_lower a = to_lower b"
    by (simp add: code_unit_inj)
  finally show ?thesis .
qed

lemma at_ci_Nil: "at_ci [] s i"
  by (simp add: at_ci_def)

lemma at_ci_Cons:
  "at_ci (c # cs) s i \<longleftrightarrow> i < length s \<and> to_lower (s ! i) = to_lower c \<and> at_ci cs s (Suc i)"
proof (cases "i < length s")
  case True
  then have "drop i s = s ! i # drop (Suc i) s" by (simp add: Cons_nth_drop_Suc)
  then show ?thesis using True by (simp add: at_ci_def)
next
  case False
  then show ?thesis by (simp add: at_ci_def)
qed

lemma rmatch_Lit_ci:
  "rmatch True (Lit c) s i = (if i < length s \<and> to_lower (s ! i) = to_lower c then [Suc i] else [])"
  by (simp add: canonicalize_def fold_case_eq)

lemma rmatch_lits_ci:
  "rmatch True (lits cs) s i = (if at_ci cs s i then [i + length cs] else [])"
proof (induction cs arbitrary: i)
  case Nil
  show ?case by (simp add: at_ci_Nil)
next
  case (Cons c cs)
  show ?case
    unfolding lits.simps rmatch.simps(6) rmatch_Lit_ci at_ci_Cons[of c cs s i]
    by (simp add: Cons.IH)
qed

lemma at_ci_append: "at_ci (p @ q) s i \<longleftrightarrow> at_ci p s i \<and> at_ci q s (i + length p)"
proof (induction p arbitrary: i)
  case Nil
  show ?case by (simp add: at_ci_Nil)
next
  case (Cons c p)
  show ?case by (simp add: at_ci_Cons Cons.IH)
qed

lemma scheme_regex_at:
  "rmatch True scheme_regex s i \<noteq> [] \<longleftrightarrow>
     i = 0 \<and> (at_ci ''http://'' s 0 \<or> at_ci ''https://'' s 0)"
proof -
  have h: "rmatch True (lits ''http'') s j = (if at_ci ''http'' s j then [j + 4] else [])" for j
    by (simp only: rmatch_lits_ci) simp
  have t: "rmatch True (lits ''://'') s j = (if at_ci ''://'' s j then [j + 3] else [])" for j
    by (simp only: rmatch_lits_ci) simp
  have o: "rmatch True (Opt (Lit CHR ''s'')) s j =
             (if at_ci ''s'' s j then [Suc j, j] else [j])" for j
    by (simp add: rmatch_Lit_ci at_ci_Cons at_ci_Nil del: rmatch.simps(2))
  have tail: "rmatch True (Seq (Opt (Lit CHR ''s'')) (lits ''://'')) s j \<noteq> [] \<longleftrightarrow>
                at_ci ''s'' s j \<and> at_ci ''://'' s (Suc j) \<or> at_ci ''://'' s j" for j
    unfolding rmatch.simps(6) o t concat_map_ne by auto
  have body: "rmatch True (Seq (lits ''http'') (Seq (Opt (Lit CHR ''s'')) (lits ''://''))) s j \<noteq> [] \<longleftrightarrow>
                at_ci ''http'' s j \<and>
                  (at_ci ''s'' s (j + 4) \<and> at_ci ''://'' s (Suc (j + 4)) \<or> at_ci ''://'' s (j + 4))" for j
    unfolding rmatch.simps(6)[of True "lits ''http''"] h concat_map_ne using tail[of "j + 4"]
    by auto
  have whole: "rmatch True scheme_regex s i \<noteq> [] \<longleftrightarrow>
                 i = 0 \<and> at_ci ''http'' s 0 \<and>
                   (at_ci ''s'' s 4 \<and> at_ci ''://'' s 5 \<or> at_ci ''://'' s 4)"
    unfolding scheme_regex_def rmatch.simps(6)[of True Bol] rmatch.simps(4) concat_map_ne
    using body[of 0] by auto
  have p1: "at_ci ''http://'' s 0 \<longleftrightarrow> at_ci ''http'' s 0 \<and> at_ci ''://'' s 4"
    using at_ci_append[of "''http''" "''://''" s 0] by (simp add: eval_nat_numeral)
  have p2: "at_ci ''https://'' s 0 \<longleftrightarrow> at_ci ''http'' s 0 \<and> at_ci ''s'' s 4 \<and> at_ci ''://'' s 5"
    using at_ci_append[of "''http''" "''s://''" s 0] at_ci_append[of "''s''" "''://''" s 4]
    by (simp add: eval_nat_numeral)
  show ?thesis unfolding whole p1 p2 by blast
qed

lemma scheme_regex_test:
  "regex_test True scheme_regex s \<longleftrightarrow> ci_prefix ''http://'' s \<or> ci_prefix ''https://'' s"
proof -
  have "regex_test True scheme_regex s \<longleftrightarrow> at_ci ''http://'' s 0 \<or> at_ci ''https://'' s 0"
    unfolding regex_test_def list_ex_iff scheme_regex_at by auto
  then show ?thesis by (simp add: at_ci_def ci_prefix_def)
qed

lemma trim_shape:
  "\<exists>a z. s = a @ trim s @ z \<and> (\<forall>x\<in>set a. is_space x) \<and> (\<forall>x\<in>set z. is_space x)
     \<and> (trim s = [] \<or> \<not> is_space (hd (trim s)) \<and> \<not> is_space (last (trim s)))"
proof -
  let ?a = "takeWhile is_space s"
  let ?m = "dropWhile is_space s"
  let ?z = "rev (takeWhile is_space (rev ?m))"
  have s: "s = ?a @ ?m" by simp
  have "rev ?m = takeWhile is_space (rev ?m) @ dropWhile is_space (rev ?m)" by simp
  then have "?m = rev (dropWhile is_space (rev ?m)) @ ?z"
    by (metis rev_append rev_rev_ident)
  then have m: "?m = trim s @ ?z" by (simp add: trim_def)
  have a: "\<forall>x\<in>set ?a. is_space x" by (auto dest: set_takeWhileD)
  have z: "\<forall>x\<in>set ?z. is_space x" by (auto dest: set_takeWhileD)
  have ends: "trim s = [] \<or> \<not> is_space (hd (trim s)) \<and> \<not> is_space (last (trim s))"
  proof (cases "trim s = []")
    case True
    then show ?thesis by simp
  next
    case False
    then have ne: "dropWhile is_space (rev ?m) \<noteq> []" by (simp add: trim_def)
    then have "\<not> is_space (hd (dropWhile is_space (rev ?m)))" by (rule hd_dropWhile)
    then have l: "\<not> is_space (last (trim s))" using ne by (simp add: trim_def last_rev)
    from False m have "?m \<noteq> []" by (metis Nil_is_append_conv)
    then have "\<not> is_space (hd ?m)" by (rule hd_dropWhile)
    moreover have "hd ?m = hd (trim s)" using m False by (metis hd_append2)
    ultimately show ?thesis using l by simp
  qed
  from s m have "s = ?a @ trim s @ ?z" by metis
  with a z ends show ?thesis by blast
qed

lemma normalizeUrl_spec: "normalizeUrl parses raw = normalize_spec parses raw"
  by (cases raw) (auto simp: normalizeUrl_def normalize_spec_def truthy_def scheme_regex_test Let_def)

text \<open>
  C6. \<open>normalizeUrl\<close> agrees with the contract of the specification on every input:
  absent and empty input give \<^verbatim>\<open>null\<close>; otherwise the input is trimmed, \<^verbatim>\<open>https://\<close> is
  prepended exactly when the trimmed string has no \<^verbatim>\<open>http://\<close> or \<^verbatim>\<open>https://\<close> prefix
  in any letter case, and the resulting string is returned exactly when it parses,
  \<^verbatim>\<open>null\<close> otherwise. Trimming removes white space, and only white space, from both
  ends.
\<close>

theorem normalizeUrl_contract:
  "normalizeUrl parses raw = normalize_spec parses raw
   \<and> normalizeUrl parses None = None
   \<and> normalizeUrl parses (Some []) = None
   \<and> (\<forall>u. normalizeUrl parses raw = Some u \<longrightarrow> parses u)
   \<and> (\<exists>a z. s = a @ trim s @ z \<and> (\<forall>x\<in>set a. is_space x) \<and> (\<forall>x\<in>set z. is_space x)
          \<and> (trim s = [] \<or> \<not> is_space (hd (trim s)) \<and> \<not> is_space (last (trim s))))"
proof -
  have 1: "normalizeUrl parses raw = normalize_spec parses raw" by (rule normalizeUrl_spec)
  have 2: "normalizeUrl parses None = None" by (simp add: normalizeUrl_def truthy_def)
  have 3: "normalizeUrl parses (Some []) = None" by (simp add: normalizeUrl_def truthy_def)
  have 4: "\<forall>u. normalizeUrl parses raw = Some u \<longrightarrow> parses u"
    by (cases raw) (auto simp: normalizeUrl_def Let_def split: if_splits)
  show ?thesis by (rule conjI[OF 1 conjI[OF 2 conjI[OF 3 conjI[OF 4 trim_shape]]]])
qed

theorem normalizeUrl_contract_witness:
  "normalizeUrl (url_parses example_env) (Some '' example.com '') = Some ''https://example.com''
   \<and> normalizeUrl (url_parses example_env) (Some ''https://a.com'') = Some ''https://a.com''
   \<and> normalizeUrl (\<lambda>u. u = ''HTTP://A.com'') (Some ''HTTP://A.com'') = Some ''HTTP://A.com''
   \<and> normalizeUrl (url_parses example_env) (Some []) = None"
proof -
  have a: "normalize_spec (url_parses example_env) (Some '' example.com '') = Some ''https://example.com''"
    "normalize_spec (url_parses example_env) (Some ''https://a.com'') = Some ''https://a.com''"
    "normalize_spec (\<lambda>u. u = ''HTTP://A.com'') (Some ''HTTP://A.com'') = Some ''HTTP://A.com''"
    by code_simp+
  show ?thesis
    using normalizeUrl_contract[of "url_parses example_env" "Some '' example.com ''" "'' example.com ''"]
      normalizeUrl_contract[of "url_parses example_env" "Some ''https://a.com''" "[]"]
      normalizeUrl_contract[of "\<lambda>u. u = ''HTTP://A.com''" "Some ''HTTP://A.com''" "[]"]
    by (simp only: a simp_thms)
qed

section \<open>Listing and searching\<close>

text \<open>
  The pattern the handler builds ends in an unescaped or an escaped \<^verbatim>\<open>%\<close>, never in a
  lone backslash, so the query cannot fail on the pattern.
\<close>

lemma like_match_defined:
  "p = [] \<or> last p = CHR ''%'' \<Longrightarrow> like_match p x \<noteq> None"
proof (induction p x rule: like_match.induct)
  case (1 t)
  show ?case by simp
next
  case (2 p ps t)
  show ?case
  proof (cases "p = CHR 0x5C")
    case True
    with "2.prems" obtain q qs where ps: "ps = q # qs" by (cases ps) auto
    with "2.prems" have qs: "qs = [] \<or> last qs = CHR ''%''" by (auto split: if_splits)
    show ?thesis
    proof (cases t)
      case Nil
      with True ps show ?thesis by simp
    next
      case (Cons y ys)
      with True ps "2.IH"(1)[OF True ps Cons _ qs] show ?thesis by auto
    qed
  next
    case False
    from "2.prems" have tl: "ps = [] \<or> last ps = CHR ''%''" by (auto split: if_splits)
    show ?thesis
    proof (cases "p = CHR ''%''")
      case True
      have a: "like_match ps t \<noteq> None" using "2.IH"(2)[OF False True tl] .
      show ?thesis
      proof (cases t)
        case Nil
        with a False True show ?thesis by (auto split: option.splits bool.splits)
      next
        case (Cons y ys)
        from a obtain b where b: "like_match ps t = Some b" by auto
        show ?thesis
        proof (cases b)
          case True
          with b \<open>p = CHR ''%''\<close> show ?thesis by simp
        next
          case F: False
          have "like_match (p # ps) ys \<noteq> None"
            using "2.IH"(3)[OF False True b[unfolded F, simplified] _ Cons "2.prems"] b F by simp
          with b F \<open>p = CHR ''%''\<close> Cons show ?thesis by simp
        qed
      qed
    next
      case np: False
      show ?thesis
      proof (cases t)
        case Nil
        with False np show ?thesis by (cases "p = CHR ''_''") auto
      next
        case (Cons y ys)
        show ?thesis
        proof (cases "p = CHR ''_''")
          case True
          with False np Cons "2.IH"(4)[OF False np True Cons tl] show ?thesis by simp
        next
          case nu: False
          with False np Cons "2.IH"(5)[OF False np nu Cons _ tl] show ?thesis by auto
        qed
      qed
    qed
  qed
qed

lemma search_condition_defined: "search_condition (''%'' @ t @ ''%'') r \<noteq> None"
proof -
  have "last (map to_lower (''%'' @ t @ ''%'')) = CHR ''%''"
    by (simp add: to_lower_def is_upper_def code_unit_def)
  then have "ilike x (''%'' @ t @ ''%'') \<noteq> None" for x
    unfolding ilike_def by (intro like_match_defined) simp
  then obtain a b where "ilike (code r) (''%'' @ t @ ''%'') = Some a"
    "ilike (original_url r) (''%'' @ t @ ''%'') = Some b"
    by (meson option.exhaust)
  then show ?thesis
    by (simp only: search_condition_def option.case option.distinct not_False_eq_True)
qed

lemma select_where_defined:
  "(\<And>r. cond r \<noteq> None) \<Longrightarrow> \<exists>rows. select_where cond s = Inr rows"
proof (induction s)
  case Nil
  show ?case by simp
next
  case (Cons a s)
  from Cons.prems[of a] obtain b where "cond a = Some b" by (meson option.exhaust)
  moreover from Cons obtain rows where "select_where cond s = Inr rows" by blast
  ultimately show ?case by simp
qed

lemma get_links_answers:
  "\<not> fails e 0 \<Longrightarrow> \<exists>views. get_links e q s = (Json 200 (LinksBody views), s)"
  using select_where_defined[of "search_condition (''%'' @ search_term q @ ''%'')" s,
      OF search_condition_defined]
  by (cases q) (auto simp: get_links_def Let_def search_term_def js_or_def truthy_def)

lemma has_substring_iff: "has_substring t x \<longleftrightarrow> (\<exists>pre post. x = pre @ t @ post)"
proof (induction x)
  case Nil
  show ?case by auto
next
  case (Cons a x)
  show ?case (is "?L = ?R")
  proof
    assume ?L
    then consider "take (length t) (a # x) = t" | "has_substring t x" by auto
    then show ?R
    proof cases
      case 1
      then have "a # x = [] @ t @ drop (length t) (a # x)"
        by (metis append_Nil append_take_drop_id)
      then show ?thesis by blast
    next
      case 2
      then obtain pre post where "x = pre @ t @ post" using Cons.IH by auto
      then have "a # x = (a # pre) @ t @ post" by simp
      then show ?thesis by blast
    qed
  next
    assume ?R
    then obtain pre post where e: "a # x = pre @ t @ post" by auto
    show ?L
    proof (cases pre)
      case Nil
      with e have "take (length t) (a # x) = t" by simp
      then show ?thesis by simp
    next
      case (Cons b pre')
      with e have "x = pre' @ t @ post" by simp
      then have "has_substring t x" using Cons.IH by blast
      then show ?thesis by simp
    qed
  qed
qed

lemma like_percent: "like_match ''%'' x = Some True"
  by (induction x) auto

lemma like_prefix:
  "wildcard_free t \<Longrightarrow> like_match (t @ ''%'') x = Some (take (length t) x = t)"
proof (induction t arbitrary: x)
  case Nil
  show ?case using like_percent by simp
next
  case (Cons c t)
  then have c: "c \<noteq> CHR ''%''" "c \<noteq> CHR ''_''" "c \<noteq> CHR 0x5C" and t: "wildcard_free t"
    by (simp_all add: wildcard_free_def)
  show ?case
  proof (cases x)
    case Nil
    then show ?thesis using c by simp
  next
    case (Cons y ys)
    then show ?thesis using c Cons.IH[OF t, of ys] by auto
  qed
qed

lemma like_substring:
  "wildcard_free t \<Longrightarrow> like_match (''%'' @ t @ ''%'') x = Some (has_substring t x)"
proof (induction x)
  case Nil
  then show ?case using like_prefix[of t "[]"] by (cases t) auto
next
  case (Cons y ys)
  have "like_match (CHR ''%'' # t @ ''%'') (y # ys) =
          (case like_match (t @ ''%'') (y # ys) of
             None \<Rightarrow> None
           | Some True \<Rightarrow> Some True
           | Some False \<Rightarrow> like_match (CHR ''%'' # t @ ''%'') ys)"
    by (simp split: option.splits bool.splits)
  moreover have "like_match (t @ ''%'') (y # ys) = Some (take (length t) (y # ys) = t)"
    by (rule like_prefix[OF Cons.prems])
  moreover have "like_match (CHR ''%'' # t @ ''%'') ys = Some (has_substring t ys)"
    using Cons.IH[OF Cons.prems] by (simp del: like_match.simps)
  ultimately have "like_match (CHR ''%'' # t @ ''%'') (y # ys) =
      Some (take (length t) (y # ys) = t \<or> has_substring t ys)"
    by (simp del: like_match.simps split: bool.splits)
  then show ?case by (simp del: like_match.simps)
qed

lemma to_lower_wildcard:
  "to_lower c \<noteq> CHR ''%'' \<and> to_lower c \<noteq> CHR ''_'' \<and> to_lower c \<noteq> CHR 0x5C
     \<longleftrightarrow> c \<noteq> CHR ''%'' \<and> c \<noteq> CHR ''_'' \<and> c \<noteq> CHR 0x5C"
proof (cases "is_upper c")
  case True
  have "code_unit c < 256" by (simp add: code_unit_def)
  with True have "code_unit (to_lower c) = code_unit c + 32"
    by (simp add: to_lower_def is_upper_def code_unit_def)
  with True have "code_unit (to_lower c) \<notin> {37, 95, 92}" "code_unit c \<notin> {37, 95, 92}"
    by (auto simp: is_upper_def)
  then show ?thesis by (auto simp: code_unit_def)
next
  case False
  then show ?thesis by (simp add: to_lower_def)
qed

lemma wildcard_free_lower: "wildcard_free t \<Longrightarrow> wildcard_free (map to_lower t)"
  unfolding wildcard_free_def list_all_iff using to_lower_wildcard by auto

lemma ilike_substring:
  "wildcard_free t \<Longrightarrow> ilike x (''%'' @ t @ ''%'') = Some (contains_ci t x)"
proof -
  assume "wildcard_free t"
  then have "like_match (''%'' @ map to_lower t @ ''%'') (map to_lower x)
               = Some (has_substring (map to_lower t) (map to_lower x))"
    by (intro like_substring wildcard_free_lower)
  moreover have "map to_lower (''%'' @ t @ ''%'') = ''%'' @ map to_lower t @ ''%''"
    by (simp add: to_lower_def is_upper_def code_unit_def)
  ultimately show ?thesis by (simp only: ilike_def contains_ci_def)
qed

lemma select_where_total:
  "(\<And>r. cond r = Some (P r)) \<Longrightarrow> select_where cond s = Inr (filter P s)"
  by (induction s) auto

lemma search_condition_substring:
  "wildcard_free t \<Longrightarrow>
     search_condition (''%'' @ t @ ''%'') r =
       Some (contains_ci t (code r) \<or> contains_ci t (original_url r))"
  by (simp only: search_condition_def ilike_substring option.case)

lemma order_by_created_desc_sorted:
  "sorted_wrt (\<lambda>a b. created_at b \<le> created_at a) (order_by_created_desc rows)"
proof -
  have "sorted (map (\<lambda>r. - created_at r) (order_by_created_desc rows))"
    unfolding order_by_created_desc_def by (rule sorted_sort_key)
  then show ?thesis by (simp add: sorted_map)
qed

lemma order_by_created_desc_same:
  "set (order_by_created_desc rows) = set rows
   \<and> length (order_by_created_desc rows) = length rows"
  by (simp add: order_by_created_desc_def)

lemma get_links_all:
  assumes "\<not> fails e 0" and "search_term q = []"
  shows "get_links e q s =
           (Json 200 (LinksBody (map (to_view (base_url e)) (order_by_created_desc s))), s)"
proof -
  have "trim (case js_or q (Some []) of None \<Rightarrow> [] | Some t \<Rightarrow> t) = search_term q"
    by (cases q) (auto simp: js_or_def truthy_def search_term_def)
  with assms show ?thesis by (simp add: get_links_def Let_def)
qed

lemma get_links_search:
  assumes "\<not> fails e 0" and "search_term q \<noteq> []" and "wildcard_free (search_term q)"
  shows "get_links e q s =
           (Json 200 (LinksBody (map (to_view (base_url e))
              (order_by_created_desc
                 (filter (\<lambda>r. contains_ci (search_term q) (code r)
                              \<or> contains_ci (search_term q) (original_url r)) s)))), s)"
proof -
  have st: "trim (case js_or q (Some []) of None \<Rightarrow> [] | Some t \<Rightarrow> t) = search_term q"
    by (cases q) (auto simp: js_or_def truthy_def search_term_def)
  have sel: "select_where (search_condition (''%'' @ search_term q @ ''%'')) s =
      Inr (filter (\<lambda>r. contains_ci (search_term q) (code r)
                      \<or> contains_ci (search_term q) (original_url r)) s)"
    by (rule select_where_total) (rule search_condition_substring[OF assms(3)])
  show ?thesis
    unfolding get_links_def st Let_def using assms(1,2)
    by (simp only: sel if_False if_True sum.case not_False_eq_True)
qed

text \<open>
  C5 (as the code has it). The handler trims the search term first. When the store call
  succeeds and the trimmed term has no \<^verbatim>\<open>%\<close>, \<^verbatim>\<open>_\<close> or backslash, the answer lists
  exactly the links whose code or URL contains the trimmed term in any letter case -
  all links when the term is absent or trims to the empty string - ordered by creation
  time, newest first.
\<close>

theorem list_returns_matching_links:
  assumes "\<not> fails e 0" and "wildcard_free (search_term q)"
  shows "get_links e q s =
           (Json 200 (LinksBody (map (to_view (base_url e)) (list_spec (search_term q) s))), s)
     \<and> sorted_wrt (\<lambda>a b. created_at b \<le> created_at a) (list_spec (search_term q) s)
     \<and> set (list_spec (search_term q) s) =
         (if search_term q = [] then set s
          else {r \<in> set s. contains_ci (search_term q) (code r)
                            \<or> contains_ci (search_term q) (original_url r)})
     \<and> (q = None \<or> q = Some [] \<longrightarrow> search_term q = [])"
proof -
  have 1: "get_links e q s =
           (Json 200 (LinksBody (map (to_view (base_url e)) (list_spec (search_term q) s))), s)"
  proof (cases "search_term q = []")
    case True
    then show ?thesis using get_links_all[OF assms(1) True] by (simp add: list_spec_def)
  next
    case False
    from get_links_search[OF assms(1) False assms(2)] False show ?thesis
      by (simp add: list_spec_def)
  qed
  have 2: "sorted_wrt (\<lambda>a b. created_at b \<le> created_at a) (list_spec (search_term q) s)"
    unfolding list_spec_def by (rule order_by_created_desc_sorted)
  have 3: "set (list_spec (search_term q) s) =
         (if search_term q = [] then set s
          else {r \<in> set s. contains_ci (search_term q) (code r)
                            \<or> contains_ci (search_term q) (original_url r)})"
    by (auto simp: list_spec_def order_by_created_desc_same)
  have 4: "q = None \<or> q = Some [] \<longrightarrow> search_term q = []"
    by (auto simp: search_term_def trim_def)
  show ?thesis by (rule conjI[OF 1 conjI[OF 2 conjI[OF 3 4]]])
qed

text \<open>
  C5 does not hold as stated: for the search term of one space the handler lists the
  link of the example table, whose code and URL contain no space.
\<close>

theorem list_blank_term_returns_all:
  "fst (get_links example_env (Some '' '') [example_link])
     = Json 200 (LinksBody [to_view ''http://localhost:3000'' example_link])
   \<and> \<not> contains_ci '' '' (code example_link)
   \<and> \<not> contains_ci '' '' (original_url example_link)"
  by code_simp

text \<open>
  A term with a pattern character is not matched literally: \<^verbatim>\<open>_\<close> stands for any
  character, so the term \<^verbatim>\<open>_\<close> lists a link without an underscore.
\<close>

lemma list_underscore_is_wildcard:
  "fst (get_links example_env (Some ''_'') [example_link])
     = Json 200 (LinksBody [to_view ''http://localhost:3000'' example_link])
   \<and> \<not> contains_ci ''_'' (code example_link)
   \<and> \<not> contains_ci ''_'' (original_url example_link)"
  by code_simp

theorem list_returns_matching_links_witness:
  "search_term (Some '' A.COM '') = ''A.COM'' \<and> wildcard_free ''A.COM''
   \<and> get_links example_env (Some '' A.COM '') [example_link]
       = (Json 200 (LinksBody [to_view ''http://localhost:3000'' example_link]), [example_link])
   \<and> get_links example_env (Some ''zzz'') [example_link] = (Json 200 (LinksBody []), [example_link])
   \<and> get_links example_env None [example_link]
       = (Json 200 (LinksBody [to_view ''http://localhost:3000'' example_link]), [example_link])"
proof -
  have a: "search_term (Some '' A.COM '') = ''A.COM''" "wildcard_free ''A.COM''"
    "search_term (Some ''zzz'') = ''zzz''" "wildcard_free ''zzz''" "search_term None = []"
    "wildcard_free []"
    by code_simp+
  have b: "list_spec ''A.COM'' [example_link] = [example_link]"
    "list_spec ''zzz'' [example_link] = []" "list_spec [] [example_link] = [example_link]"
    by code_simp+
  have f: "\<not> fails example_env 0" by (simp add: example_env_def)
  have u: "base_url example_env = ''http://localhost:3000''" by (simp add: example_env_def)
  show ?thesis
    using list_returns_matching_links[of example_env "Some '' A.COM ''" "[example_link]", OF f]
      list_returns_matching_links[of example_env "Some ''zzz''" "[example_link]", OF f]
      list_returns_matching_links[of example_env None "[example_link]", OF f]
    by (simp add: a b u)
qed

end
